theory Spec2Isabelle
  imports Complex_Main
begin

section \<open>The variable n-step tree backup episode (qlearn/algorithms/variablenstep.py)\<close>

text \<open>
  \<^verbatim>\<open>variablenstep(self, state, action)\<close> runs one learning episode. It keeps the
  histories \<^verbatim>\<open>delta\<close>, \<^verbatim>\<open>Q\<close>, \<^verbatim>\<open>A\<close>, \<^verbatim>\<open>S\<close>, \<^verbatim>\<open>pi\<close> as Python lists and
  the times \<^verbatim>\<open>T\<close>, \<^verbatim>\<open>tau\<close>, \<^verbatim>\<open>t\<close>; it reads \<^verbatim>\<open>self.depth\<close>, \<^verbatim>\<open>self.steps\<close>,
  \<^verbatim>\<open>self.discount\<close> and calls the learner's methods.

  The learner class is not part of the module, so its methods are parameters of the
  model, collected in the record \<open>learner\<close>. The mutable part of the learner (random
  generator, simulator, weights) is a value of type \<open>'l\<close>: the methods that change it
  (\<^verbatim>\<open>next_action\<close>, \<^verbatim>\<open>next_state\<close>, \<^verbatim>\<open>update\<close>) return the new value, the methods
  that read it (\<^verbatim>\<open>qvalue\<close>, \<^verbatim>\<open>a_probs\<close>) take it as an argument; \<^verbatim>\<open>stepsize\<close>,
  \<^verbatim>\<open>reward\<close> and \<^verbatim>\<open>goal\<close> are functions of their arguments. \<^verbatim>\<open>qvalue\<close> called
  without an action (the values of all actions) is \<open>qvalue_all\<close>. The attributes
  \<^verbatim>\<open>depth\<close>, \<^verbatim>\<open>steps\<close> and \<^verbatim>\<open>discount\<close> are not reassigned by any method.
  Q-values, rewards and probabilities are floating point numbers in the source; they
  are reals here, and no branch of the procedure depends on them.
\<close>

datatype error = IndexError | ValueError

text \<open>An action is an integer or a vector (\<^verbatim>\<open>isinstance(naction, (int, np.integer))\<close>).\<close>

datatype action = IntAction int | VecAction "int list"

record ('l, 's, 'k) learner =
  depth :: int
  steps :: int
  discount :: real
  next_action :: "'l \<Rightarrow> 's \<Rightarrow> action \<times> 'l"
  stepsize :: "'s \<Rightarrow> 'k"
  next_state :: "'l \<Rightarrow> 's \<Rightarrow> action \<Rightarrow> 'k \<Rightarrow> 's \<times> 'l"
  qvalue :: "'l \<Rightarrow> 's \<Rightarrow> action \<Rightarrow> real"
  qvalue_all :: "'l \<Rightarrow> 's \<Rightarrow> real list"
  reward :: "'s \<Rightarrow> action \<Rightarrow> 's \<Rightarrow> 'k \<Rightarrow> real"
  a_probs :: "'l \<Rightarrow> 's \<Rightarrow> real list"
  actionconverter_encode :: "int list \<Rightarrow> int"
  goal :: "'s \<Rightarrow> bool"
  update :: "'l \<Rightarrow> 's \<Rightarrow> action \<Rightarrow> real \<Rightarrow> 'l"

text \<open>
  The local variables of the procedure. \<open>T_var = None\<close> is \<^verbatim>\<open>T = np.inf\<close>;
  \<open>self_var\<close> is the mutable part of the learner.
\<close>

record ('l, 's) locals =
  T_var :: "int option"
  tau_var :: int
  t_var :: int
  delta_var :: "real list"
  Q_var :: "real list"
  A_var :: "action list"
  S_var :: "'s list"
  pi_var :: "real list"
  self_var :: 'l

text \<open>
  Indexing a Python list or a numpy array: a negative index counts from the end, an
  index outside \<open>[-n, n)\<close> raises \<^verbatim>\<open>IndexError\<close>.
\<close>

definition py_index :: "'x list \<Rightarrow> int \<Rightarrow> error + 'x" where
  "py_index xs i =
     (if 0 \<le> i \<and> i < int (length xs) then Inr (xs ! nat i)
      else if i < 0 \<and> - int (length xs) \<le> i then Inr (xs ! nat (int (length xs) + i))
      else Inl IndexError)"

text \<open>\<^verbatim>\<open>np.dot\<close> of two one-dimensional arrays; shapes that differ raise \<^verbatim>\<open>ValueError\<close>.\<close>

definition np_dot :: "real list \<Rightarrow> real list \<Rightarrow> error + real" where
  "np_dot xs ys =
     (if length xs = length ys then Inr (sum_list (map2 (*) xs ys)) else Inl ValueError)"

text \<open>\<^verbatim>\<open>range(a, b)\<close> over Python integers.\<close>

definition py_range :: "int \<Rightarrow> int \<Rightarrow> int list" where
  "py_range a b = [a..b - 1]"

text \<open>The loop guard \<^verbatim>\<open>tau <= T-1 and t < self.depth\<close>.\<close>

definition guard :: "('l, 's, 'k) learner \<Rightarrow> ('l, 's) locals \<Rightarrow> bool" where
  "guard L v \<longleftrightarrow>
     (case T_var v of None \<Rightarrow> True | Some T \<Rightarrow> tau_var v \<le> T - 1) \<and> t_var v < depth L"

text \<open>
  The first half of the loop body, run when \<^verbatim>\<open>t < T\<close>: take the current action, look
  one step ahead, and append to \<^verbatim>\<open>A\<close>, \<^verbatim>\<open>S\<close>, \<^verbatim>\<open>Q\<close>, \<^verbatim>\<open>pi\<close> and \<^verbatim>\<open>delta\<close>.
\<close>

definition lookahead :: "('l, 's, 'k) learner \<Rightarrow> ('l, 's) locals \<Rightarrow> error + ('l, 's) locals" where
  "lookahead L v =
     (case py_index (A_var v) (- 1) of Inl e \<Rightarrow> Inl e | Inr action \<Rightarrow>
      case py_index (S_var v) (- 1) of Inl e \<Rightarrow> Inl e | Inr state \<Rightarrow>
      let (naction, self1) = next_action L (self_var v) state;
          step = stepsize L state;
          (nstate, self2) = next_state L self1 state action step;
          cqvalue = qvalue L self2 state action;
          nqvalue = qvalue L self2 nstate naction;
          v1 = v\<lparr>A_var := A_var v @ [naction], S_var := S_var v @ [nstate],
                 Q_var := Q_var v @ [nqvalue], self_var := self2\<rparr>;
          rew = reward L state action nstate step;
          aprobs = a_probs L self2 nstate
      in case py_index aprobs
                (case naction of IntAction i \<Rightarrow> i
                 | VecAction xs \<Rightarrow> actionconverter_encode L xs) of
           Inl e \<Rightarrow> Inl e
         | Inr p \<Rightarrow>
             let v2 = v1\<lparr>pi_var := pi_var v1 @ [p]\<rparr>
             in if goal L nstate
                then Inr (v2\<lparr>T_var := Some (t_var v2 + 1),
                             delta_var := delta_var v2 @ [rew - cqvalue]\<rparr>)
                else (case np_dot aprobs (qvalue_all L self2 nstate) of
                        Inl e \<Rightarrow> Inl e
                      | Inr d \<Rightarrow>
                          Inr (v2\<lparr>delta_var :=
                                    delta_var v2 @ [rew + discount L * d - cqvalue]\<rparr>)))"

text \<open>
  The inner \<^verbatim>\<open>for k in range(...)\<close> loop: \<^verbatim>\<open>G += E * delta[k]\<close>, then
  \<^verbatim>\<open>E = self.discount * E * pi[k+1]\<close>.
\<close>

fun nstep_return :: "real \<Rightarrow> real list \<Rightarrow> real list \<Rightarrow> int list \<Rightarrow> real \<times> real \<Rightarrow>
    error + real \<times> real" where
  "nstep_return disc dlt prb [] (G, E) = Inr (G, E)"
| "nstep_return disc dlt prb (k # ks) (G, E) =
     (case py_index dlt k of Inl e \<Rightarrow> Inl e | Inr d \<Rightarrow>
      case py_index prb (k + 1) of Inl e \<Rightarrow> Inl e | Inr p \<Rightarrow>
      nstep_return disc dlt prb ks (G + E * d, disc * E * p))"

text \<open>
  The second half of the loop body, run when \<^verbatim>\<open>tau >= 0\<close>: compute the n-step return
  \<^verbatim>\<open>G\<close> and call \<^verbatim>\<open>self.update\<close>.
\<close>

definition backup :: "('l, 's, 'k) learner \<Rightarrow> ('l, 's) locals \<Rightarrow> error + ('l, 's) locals" where
  "backup L v =
     (case py_index (Q_var v) (tau_var v) of Inl e \<Rightarrow> Inl e | Inr G0 \<Rightarrow>
      case nstep_return (discount L) (delta_var v) (pi_var v)
             (py_range (tau_var v)
                (case T_var v of None \<Rightarrow> tau_var v + steps L
                 | Some T \<Rightarrow> min (tau_var v + steps L) T))
             (G0, 1) of
        Inl e \<Rightarrow> Inl e
      | Inr (G, E) \<Rightarrow>
      case py_index (S_var v) (tau_var v) of Inl e \<Rightarrow> Inl e | Inr s \<Rightarrow>
      case py_index (A_var v) (tau_var v) of Inl e \<Rightarrow> Inl e | Inr a \<Rightarrow>
      Inr (v\<lparr>self_var := update L (self_var v) s a (qvalue L (self_var v) s a - G)\<rparr>))"

text \<open>One iteration of the \<^verbatim>\<open>while\<close> loop.\<close>

definition body :: "('l, 's, 'k) learner \<Rightarrow> ('l, 's) locals \<Rightarrow> error + ('l, 's) locals" where
  "body L v =
     (case (if (case T_var v of None \<Rightarrow> True | Some T \<Rightarrow> t_var v < T)
            then lookahead L v else Inr v) of
        Inl e \<Rightarrow> Inl e
      | Inr v1 \<Rightarrow>
          let v2 = v1\<lparr>tau_var := t_var v1 - steps L + 1\<rparr>
          in case (if tau_var v2 \<ge> 0 then backup L v2 else Inr v2) of
               Inl e \<Rightarrow> Inl e
             | Inr v3 \<Rightarrow> Inr (v3\<lparr>t_var := t_var v3 + 1\<rparr>))"

lemma lookahead_t_var: "lookahead L v = Inr v' \<Longrightarrow> t_var v' = t_var v"
  by (auto simp: lookahead_def Let_def split: sum.splits prod.splits if_splits)

lemma backup_t_var: "backup L v = Inr v' \<Longrightarrow> t_var v' = t_var v"
  by (auto simp: backup_def split: sum.splits prod.splits)

lemma body_t_var: "body L v = Inr v' \<Longrightarrow> t_var v' = t_var v + 1"
  by (auto simp: body_def Let_def split: sum.splits if_splits
      dest!: lookahead_t_var backup_t_var)

text \<open>
  The \<^verbatim>\<open>while\<close> loop. An exception raised in the body ends the procedure. The loop
  is a total function: the guard requires \<^verbatim>\<open>t < self.depth\<close> and the body adds one
  to \<^verbatim>\<open>t\<close>.
\<close>

function variablenstep_loop ::
    "('l, 's, 'k) learner \<Rightarrow> ('l, 's) locals \<Rightarrow> error + ('l, 's) locals" where
  "variablenstep_loop L v =
     (if guard L v
      then (case body L v of Inl e \<Rightarrow> Inl e | Inr v' \<Rightarrow> variablenstep_loop L v')
      else Inr v)"
  by pat_completeness auto
termination
  by (relation "measure (\<lambda>(L, v). nat (depth L - t_var v))")
     (auto simp: guard_def dest: body_t_var)

declare variablenstep_loop.simps [simp del]

text \<open>The state of the locals when the loop is entered.\<close>

definition initial :: "('l, 's, 'k) learner \<Rightarrow> 'l \<Rightarrow> 's \<Rightarrow> action option \<Rightarrow> ('l, 's) locals" where
  "initial L l state action =
     (let (a0, l1) = (case action of None \<Rightarrow> next_action L l state | Some a \<Rightarrow> (a, l))
      in \<lparr>T_var = None, tau_var = 0, t_var = 0, delta_var = [],
          Q_var = [qvalue L l1 state a0], A_var = [a0], S_var = [state], pi_var = [1],
          self_var = l1\<rparr>)"

text \<open>
  The procedure: it returns \<^verbatim>\<open>(S[1:], A)\<close>, and here also the learner as the calls
  left it.
\<close>

definition variablenstep ::
    "('l, 's, 'k) learner \<Rightarrow> 'l \<Rightarrow> 's \<Rightarrow> action option \<Rightarrow>
     error + ('s list \<times> action list) \<times> 'l" where
  "variablenstep L l state action =
     (case variablenstep_loop L (initial L l state action) of
        Inl e \<Rightarrow> Inl e
      | Inr v \<Rightarrow> Inr ((drop 1 (S_var v), A_var v), self_var v))"

text \<open>
  The same loop with a budget of \<open>n\<close> iterations: the result is \<open>None\<close> when the guard
  still holds after \<open>n\<close> iterations of the body, and the loop's result otherwise.
\<close>

fun variablenstep_bounded ::
    "nat \<Rightarrow> ('l, 's, 'k) learner \<Rightarrow> ('l, 's) locals \<Rightarrow> (error + ('l, 's) locals) option" where
  "variablenstep_bounded 0 L v = (if guard L v then None else Some (Inr v))"
| "variablenstep_bounded (Suc n) L v =
     (if guard L v
      then (case body L v of Inl e \<Rightarrow> Some (Inl e) | Inr v' \<Rightarrow> variablenstep_bounded n L v')
      else Some (Inr v))"

text \<open>
  The index the procedure reads \<^verbatim>\<open>aprobs\<close> at: the action itself, or its encoding by
  \<^verbatim>\<open>self.actionconverter\<close>.
\<close>

definition action_index :: "('l, 's, 'k) learner \<Rightarrow> action \<Rightarrow> int" where
  "action_index L a = (case a of IntAction i \<Rightarrow> i | VecAction xs \<Rightarrow> actionconverter_encode L xs)"

text \<open>
  What the procedure needs of the learner's arrays: every action \<^verbatim>\<open>next_action\<close>
  chooses indexes \<^verbatim>\<open>a_probs\<close>, and \<^verbatim>\<open>a_probs\<close> and \<^verbatim>\<open>qvalue\<close> over all actions
  have the same length.
\<close>

definition arrays_ok :: "('l, 's, 'k) learner \<Rightarrow> bool" where
  "arrays_ok L \<longleftrightarrow>
     (\<forall>l s l' s'. py_index (a_probs L l' s') (action_index L (fst (next_action L l s))) \<noteq> Inl IndexError) \<and>
     (\<forall>l s. length (a_probs L l s) = length (qvalue_all L l s))"

text \<open>
  The invariant of the loop: the histories \<^verbatim>\<open>Q\<close>, \<^verbatim>\<open>A\<close>, \<^verbatim>\<open>S\<close>, \<^verbatim>\<open>pi\<close> are one
  longer than \<^verbatim>\<open>delta\<close>; before the terminal state is seen \<^verbatim>\<open>delta\<close> has \<^verbatim>\<open>t\<close>
  entries, afterwards it has \<^verbatim>\<open>T\<close> entries and \<^verbatim>\<open>tau\<close> trails \<^verbatim>\<open>t\<close> by
  \<^verbatim>\<open>self.steps\<close>.
\<close>

definition consistent :: "('l, 's, 'k) learner \<Rightarrow> ('l, 's) locals \<Rightarrow> bool" where
  "consistent L v \<longleftrightarrow>
     length (Q_var v) = Suc (length (delta_var v)) \<and>
     length (A_var v) = Suc (length (delta_var v)) \<and>
     length (S_var v) = Suc (length (delta_var v)) \<and>
     length (pi_var v) = Suc (length (delta_var v)) \<and>
     (case T_var v of
        None \<Rightarrow> t_var v = int (length (delta_var v))
      | Some T \<Rightarrow> T = int (length (delta_var v)) \<and> T \<le> t_var v \<and> tau_var v = t_var v - steps L)"

text \<open>
  A small learner to run the procedure on: a corridor of integer states walked one step
  to the right per action, with the goal at \<open>g\<close>. The learner's mutable part counts the
  calls of \<^verbatim>\<open>update\<close>.
\<close>

definition corridor :: "int \<Rightarrow> int \<Rightarrow> int \<Rightarrow> (nat, int, unit) learner" where
  "corridor d n g =
     \<lparr>depth = d, steps = n, discount = 1,
      next_action = (\<lambda>l s. (IntAction 1, l)),
      stepsize = (\<lambda>s. ()),
      next_state = (\<lambda>l s a k. (s + 1, l)),
      qvalue = (\<lambda>l s a. 0),
      qvalue_all = (\<lambda>l s. [0, 0]),
      reward = (\<lambda>s a ns k. if ns = g then 1 else 0),
      a_probs = (\<lambda>l s. [1 / 2, 1 / 2]),
      actionconverter_encode = (\<lambda>xs. 0),
      goal = (\<lambda>s. s = g),
      update = (\<lambda>l s a e. Suc l)\<rparr>"

lemmas run_simps =
  variablenstep_def initial_def corridor_def variablenstep_loop.simps guard_def body_def
  lookahead_def backup_def py_index_def np_dot_def py_range_def Let_def upto.simps

subsection \<open>The histories grow in lockstep\<close>

lemma lookahead_appends:
  "lookahead L v = Inr v' \<Longrightarrow>
     \<exists>a s. A_var v' = A_var v @ [a] \<and> S_var v' = S_var v @ [s]"
  by (auto simp: lookahead_def Let_def split: sum.splits prod.splits if_splits)

lemma backup_keeps:
  "backup L v = Inr v' \<Longrightarrow> A_var v' = A_var v \<and> S_var v' = S_var v"
  by (auto simp: backup_def split: sum.splits prod.splits)

lemma body_lockstep:
  assumes "body L v = Inr v'"
  shows "(A_var v' = A_var v \<and> S_var v' = S_var v) \<or>
         (\<exists>a s. A_var v' = A_var v @ [a] \<and> S_var v' = S_var v @ [s])"
proof -
  obtain v1 where v1: "(if (case T_var v of None \<Rightarrow> True | Some T \<Rightarrow> t_var v < T)
            then lookahead L v else Inr v) = Inr v1"
    using assms by (auto simp: body_def split: sum.splits)
  let ?v2 = "v1\<lparr>tau_var := t_var v1 - steps L + 1\<rparr>"
  obtain v3 where v3: "(if tau_var ?v2 \<ge> 0 then backup L ?v2 else Inr ?v2) = Inr v3"
    and v': "v' = v3\<lparr>t_var := t_var v3 + 1\<rparr>"
    using assms v1 by (auto simp: body_def Let_def split: sum.splits)
  have "A_var v3 = A_var v1 \<and> S_var v3 = S_var v1"
    using v3 by (auto split: if_splits dest: backup_keeps)
  moreover have "(A_var v1 = A_var v \<and> S_var v1 = S_var v) \<or>
         (\<exists>a s. A_var v1 = A_var v @ [a] \<and> S_var v1 = S_var v @ [s])"
    using v1 by (auto split: if_splits dest: lookahead_appends)
  ultimately show ?thesis using v' by auto
qed

lemma loop_history:
  "variablenstep_loop L v = Inr v' \<Longrightarrow>
     \<exists>As Ss. A_var v' = A_var v @ As \<and> S_var v' = S_var v @ Ss \<and> length As = length Ss \<and>
       int (length Ss) \<le> t_var v' - t_var v \<and> t_var v' \<le> max (t_var v) (depth L)"
proof (induction L v rule: variablenstep_loop.induct)
  case (1 L v)
  show ?case
  proof (cases "guard L v")
    case False
    with "1.prems" have "v' = v" by (simp add: variablenstep_loop.simps[of L v])
    then show ?thesis by simp
  next
    case True
    then obtain w where w: "body L v = Inr w" and loop: "variablenstep_loop L w = Inr v'"
      using "1.prems" by (auto simp: variablenstep_loop.simps[of L v] split: sum.splits)
    from "1.IH"[OF True w loop] obtain As Ss where
      ih: "A_var v' = A_var w @ As" "S_var v' = S_var w @ Ss" "length As = length Ss"
        "int (length Ss) \<le> t_var v' - t_var w" "t_var v' \<le> max (t_var w) (depth L)"
      by blast
    have tw: "t_var w = t_var v + 1" using w by (rule body_t_var)
    have td: "t_var v < depth L" using True by (simp add: guard_def)
    from body_lockstep[OF w] show ?thesis
    proof
      assume "A_var w = A_var v \<and> S_var w = S_var v"
      with ih tw td show ?thesis by auto
    next
      assume "\<exists>a s. A_var w = A_var v @ [a] \<and> S_var w = S_var v @ [s]"
      then obtain a s where "A_var w = A_var v @ [a]" "S_var w = S_var v @ [s]" by blast
      with ih tw td show ?thesis
        by (intro exI[of _ "a # As"] exI[of _ "s # Ss"]) auto
    qed
  qed
qed

lemma bounded_enough:
  "nat (depth L - t_var v) \<le> n \<Longrightarrow>
     variablenstep_bounded n L v = Some (variablenstep_loop L v)"
proof (induction n arbitrary: v)
  case 0
  then have "\<not> guard L v" by (simp add: guard_def)
  then show ?case by (simp add: variablenstep_loop.simps[of L v])
next
  case (Suc n)
  show ?case
  proof (cases "guard L v")
    case False
    then show ?thesis by (simp add: variablenstep_loop.simps[of L v])
  next
    case True
    show ?thesis
    proof (cases "body L v")
      case (Inl e)
      with True show ?thesis by (simp add: variablenstep_loop.simps[of L v])
    next
      case (Inr w)
      then have "t_var w = t_var v + 1" by (rule body_t_var)
      with Suc.prems have "nat (depth L - t_var w) \<le> n" by simp
      from Suc.IH[OF this] True Inr show ?thesis
        by (simp add: variablenstep_loop.simps[of L v])
    qed
  qed
qed

subsection \<open>No index leaves its list\<close>

lemma py_index_in_range:
  "0 \<le> i \<Longrightarrow> i < int (length xs) \<Longrightarrow> py_index xs i = Inr (xs ! nat i)"
  by (simp add: py_index_def)

lemma py_index_last: "xs \<noteq> [] \<Longrightarrow> py_index xs (- 1) = Inr (last xs)"
  by (cases xs rule: rev_cases) (auto simp: py_index_def nth_append)

lemma nstep_return_in_range:
  "\<forall>k\<in>set ks. 0 \<le> k \<and> k < int (length dlt) \<and> k + 1 < int (length prb) \<Longrightarrow>
     \<exists>r. nstep_return disc dlt prb ks ge = Inr r"
proof (induction ks arbitrary: ge)
  case Nil
  show ?case by (cases ge) simp
next
  case (Cons k ks)
  obtain G E where ge: "ge = (G, E)" by (cases ge)
  from Cons.prems have k: "0 \<le> k" "k < int (length dlt)" "0 \<le> k + 1" "k + 1 < int (length prb)"
    by auto
  from Cons.prems have rest: "\<forall>k\<in>set ks. 0 \<le> k \<and> k < int (length dlt) \<and> k + 1 < int (length prb)"
    by simp
  show ?case
    using Cons.IH[OF rest] py_index_in_range[OF k(1,2)] py_index_in_range[OF k(3,4)]
    by (simp add: ge)
qed

lemma lookahead_returns:
  assumes "consistent L v" and "T_var v = None" and "arrays_ok L"
  shows "\<exists>v1. lookahead L v = Inr v1 \<and> t_var v1 = t_var v \<and>
           length (delta_var v1) = Suc (length (delta_var v)) \<and>
           length (Q_var v1) = Suc (length (delta_var v1)) \<and>
           length (A_var v1) = Suc (length (delta_var v1)) \<and>
           length (S_var v1) = Suc (length (delta_var v1)) \<and>
           length (pi_var v1) = Suc (length (delta_var v1)) \<and>
           (T_var v1 = None \<or> T_var v1 = Some (t_var v + 1))"
proof -
  have ne: "A_var v \<noteq> []" "S_var v \<noteq> []"
    using assms(1) by (auto simp: consistent_def)
  obtain naction self1 where na: "next_action L (self_var v) (last (S_var v)) = (naction, self1)"
    by (cases "next_action L (self_var v) (last (S_var v))")
  obtain nstate self2 where ns:
    "next_state L self1 (last (S_var v)) (last (A_var v)) (stepsize L (last (S_var v))) = (nstate, self2)"
    by (cases "next_state L self1 (last (S_var v)) (last (A_var v)) (stepsize L (last (S_var v)))")
  have "py_index (a_probs L self2 nstate) (action_index L naction) \<noteq> Inl IndexError"
    using assms(3) na unfolding arrays_ok_def by (metis fst_conv)
  then obtain p where p: "py_index (a_probs L self2 nstate) (action_index L naction) = Inr p"
    by (auto simp: py_index_def split: if_splits)
  have d: "\<exists>d. np_dot (a_probs L self2 nstate) (qvalue_all L self2 nstate) = Inr d"
    using assms(3) by (simp add: arrays_ok_def np_dot_def)
  show ?thesis
    using assms(1,2) na ns p d
    by (auto simp: lookahead_def py_index_last[OF ne(1)] py_index_last[OF ne(2)]
        action_index_def[symmetric] consistent_def Let_def)
qed

lemma backup_returns:
  assumes len: "length (Q_var v) = Suc (length (delta_var v))"
      "length (A_var v) = Suc (length (delta_var v))"
      "length (S_var v) = Suc (length (delta_var v))"
      "length (pi_var v) = Suc (length (delta_var v))"
    and tau: "0 \<le> tau_var v" "tau_var v \<le> int (length (delta_var v))"
    and stop: "(case T_var v of None \<Rightarrow> tau_var v + steps L | Some T \<Rightarrow> min (tau_var v + steps L) T)
                \<le> int (length (delta_var v))"
  shows "\<exists>l'. backup L v = Inr (v\<lparr>self_var := l'\<rparr>)"
proof -
  let ?stop = "case T_var v of None \<Rightarrow> tau_var v + steps L | Some T \<Rightarrow> min (tau_var v + steps L) T"
  have q: "py_index (Q_var v) (tau_var v) = Inr (Q_var v ! nat (tau_var v))"
    and s: "py_index (S_var v) (tau_var v) = Inr (S_var v ! nat (tau_var v))"
    and a: "py_index (A_var v) (tau_var v) = Inr (A_var v ! nat (tau_var v))"
    using len tau by (simp_all add: py_index_in_range)
  have "\<forall>k\<in>set (py_range (tau_var v) ?stop).
          0 \<le> k \<and> k < int (length (delta_var v)) \<and> k + 1 < int (length (pi_var v))"
    using tau(1) stop len(4) by (auto simp: py_range_def)
  from nstep_return_in_range[OF this]
  obtain G E where "nstep_return (discount L) (delta_var v) (pi_var v)
      (py_range (tau_var v) ?stop) (Q_var v ! nat (tau_var v), 1) = Inr (G, E)"
    by (metis surj_pair)
  then have "backup L v = Inr (v\<lparr>self_var :=
      update L (self_var v) (S_var v ! nat (tau_var v)) (A_var v ! nat (tau_var v))
        (qvalue L (self_var v) (S_var v ! nat (tau_var v)) (A_var v ! nat (tau_var v)) - G)\<rparr>)"
    using q s a by (simp add: backup_def)
  then show ?thesis by blast
qed

lemma body_returns:
  assumes inv: "consistent L v" and g: "guard L v" and st: "0 \<le> steps L" and ok: "arrays_ok L"
  shows "\<exists>v'. body L v = Inr v' \<and> consistent L v'"
proof (cases "T_var v")
  case None
  from lookahead_returns[OF inv None ok] obtain v1 where
    v1: "lookahead L v = Inr v1" "t_var v1 = t_var v"
      "length (delta_var v1) = Suc (length (delta_var v))"
      "length (Q_var v1) = Suc (length (delta_var v1))"
      "length (A_var v1) = Suc (length (delta_var v1))"
      "length (S_var v1) = Suc (length (delta_var v1))"
      "length (pi_var v1) = Suc (length (delta_var v1))"
      "T_var v1 = None \<or> T_var v1 = Some (t_var v + 1)"
    by blast
  have t: "t_var v = int (length (delta_var v))"
    using inv None by (simp add: consistent_def)
  let ?v2 = "v1\<lparr>tau_var := t_var v1 - steps L + 1\<rparr>"
  have "\<exists>l'. (if tau_var ?v2 \<ge> 0 then backup L ?v2 else Inr ?v2) = Inr (?v2\<lparr>self_var := l'\<rparr>)"
  proof (cases "tau_var ?v2 \<ge> 0")
    case True
    have "\<exists>l'. backup L ?v2 = Inr (?v2\<lparr>self_var := l'\<rparr>)"
      using v1 t st True by (intro backup_returns) (auto split: option.splits)
    with True show ?thesis by simp
  next
    case False
    then show ?thesis by (intro exI[of _ "self_var ?v2"]) simp
  qed
  then obtain l' where v3: "(if tau_var ?v2 \<ge> 0 then backup L ?v2 else Inr ?v2) = Inr (?v2\<lparr>self_var := l'\<rparr>)"
    by blast
  define v3 where "v3 = ?v2\<lparr>self_var := l'\<rparr>"
  have b: "body L v = Inr (v3\<lparr>t_var := t_var v3 + 1\<rparr>)"
    using None v1(1) v3 by (simp add: body_def Let_def v3_def)
  have "consistent L (v3\<lparr>t_var := t_var v3 + 1\<rparr>)"
    using v1 t by (auto simp: consistent_def v3_def)
  with b show ?thesis by blast
next
  case (Some T)
  have T: "T = int (length (delta_var v))" "T \<le> t_var v" "tau_var v = t_var v - steps L"
    using inv Some by (simp_all add: consistent_def)
  have len: "length (Q_var v) = Suc (length (delta_var v))"
      "length (A_var v) = Suc (length (delta_var v))"
      "length (S_var v) = Suc (length (delta_var v))"
      "length (pi_var v) = Suc (length (delta_var v))"
    using inv by (simp_all add: consistent_def)
  have tau: "tau_var v \<le> T - 1" using g Some by (simp add: guard_def)
  let ?v2 = "v\<lparr>tau_var := t_var v - steps L + 1\<rparr>"
  have "\<exists>l'. (if tau_var ?v2 \<ge> 0 then backup L ?v2 else Inr ?v2) = Inr (?v2\<lparr>self_var := l'\<rparr>)"
  proof (cases "tau_var ?v2 \<ge> 0")
    case True
    have "\<exists>l'. backup L ?v2 = Inr (?v2\<lparr>self_var := l'\<rparr>)"
      using len T tau Some True by (intro backup_returns) auto
    with True show ?thesis by simp
  next
    case False
    then show ?thesis by (intro exI[of _ "self_var ?v2"]) simp
  qed
  then obtain l' where v3: "(if tau_var ?v2 \<ge> 0 then backup L ?v2 else Inr ?v2) = Inr (?v2\<lparr>self_var := l'\<rparr>)"
    by blast
  define v3 where "v3 = ?v2\<lparr>self_var := l'\<rparr>"
  have b: "body L v = Inr (v3\<lparr>t_var := t_var v3 + 1\<rparr>)"
    using Some T(2) v3 by (simp add: body_def Let_def v3_def)
  have "consistent L (v3\<lparr>t_var := t_var v3 + 1\<rparr>)"
    using len T Some by (auto simp: consistent_def v3_def)
  with b show ?thesis by blast
qed

lemma loop_returns:
  "consistent L v \<Longrightarrow> 0 \<le> steps L \<Longrightarrow> arrays_ok L \<Longrightarrow> \<exists>v'. variablenstep_loop L v = Inr v'"
proof (induction L v rule: variablenstep_loop.induct)
  case (1 L v)
  show ?case
  proof (cases "guard L v")
    case False
    then show ?thesis by (simp add: variablenstep_loop.simps[of L v])
  next
    case True
    from body_returns[OF "1.prems"(1) True "1.prems"(2,3)]
    obtain w where w: "body L v = Inr w" "consistent L w" by blast
    from "1.IH"[OF True w(1) w(2) "1.prems"(2,3)] True w(1)
    show ?thesis by (simp add: variablenstep_loop.simps[of L v])
  qed
qed

lemma initial_consistent: "consistent L (initial L l state action)"
  by (simp add: consistent_def initial_def Let_def split: prod.splits option.splits)

lemma variablenstep_returns:
  "0 \<le> steps L \<Longrightarrow> arrays_ok L \<Longrightarrow> \<exists>r. variablenstep L l state action = Inr r"
  using loop_returns[OF initial_consistent, of L l state action]
  by (auto simp: variablenstep_def)

subsection \<open>The episode is bounded by \<^verbatim>\<open>self.depth\<close>\<close>

text \<open>
  Claim C9. For every learner whose \<^verbatim>\<open>depth\<close> is a positive integer the procedure
  terminates: the guard of the main loop requires \<^verbatim>\<open>t < self.depth\<close>, every iteration
  that completes adds one to \<^verbatim>\<open>t\<close>, so the loop started at \<^verbatim>\<open>t = 0\<close> is over within
  \<^verbatim>\<open>depth\<close> iterations (a budget of \<^verbatim>\<open>depth\<close> iterations is never used up), and the
  list of states it returns has at most \<^verbatim>\<open>depth\<close> entries.
\<close>

theorem variablenstep_terminates_within_depth:
  assumes "0 < depth L"
  shows "(\<forall>v. guard L v \<longrightarrow> t_var v < depth L) \<and>
         (\<forall>v v'. body L v = Inr v' \<longrightarrow> t_var v' = t_var v + 1) \<and>
         variablenstep_bounded (nat (depth L)) L (initial L l state action) =
           Some (variablenstep_loop L (initial L l state action)) \<and>
         (\<forall>states actions l'.
            variablenstep L l state action = Inr ((states, actions), l') \<longrightarrow>
            int (length states) \<le> depth L)"
proof (intro conjI allI impI)
  fix v :: "('a, 'b) locals"
  assume "guard L v"
  then show "t_var v < depth L" by (simp add: guard_def)
next
  fix v v' :: "('a, 'b) locals"
  assume "body L v = Inr v'"
  then show "t_var v' = t_var v + 1" by (rule body_t_var)
next
  have "t_var (initial L l state action) = 0"
    by (simp add: initial_def Let_def split: prod.splits)
  then have "nat (depth L - t_var (initial L l state action)) \<le> nat (depth L)" by simp
  then show "variablenstep_bounded (nat (depth L)) L (initial L l state action) =
      Some (variablenstep_loop L (initial L l state action))"
    by (rule bounded_enough)
next
  fix states actions l'
  assume "variablenstep L l state action = Inr ((states, actions), l')"
  then obtain v where v: "variablenstep_loop L (initial L l state action) = Inr v"
    and st: "states = drop 1 (S_var v)"
    by (auto simp: variablenstep_def split: sum.splits)
  have init: "t_var (initial L l state action) = 0" "S_var (initial L l state action) = [state]"
    by (simp_all add: initial_def Let_def split: prod.splits)
  from loop_history[OF v] obtain Ss where
    "S_var v = S_var (initial L l state action) @ Ss"
    "int (length Ss) \<le> t_var v - t_var (initial L l state action)"
    "t_var v \<le> max (t_var (initial L l state action)) (depth L)"
    by blast
  with init st assms show "int (length states) \<le> depth L" by simp
qed

text \<open>
  In a corridor whose goal lies beyond the depth 3, the budget of 3 iterations is
  enough and the three states walked are returned.
\<close>

theorem variablenstep_terminates_within_depth_witness:
  "0 < depth (corridor 3 2 10) \<and>
   variablenstep_bounded (nat (depth (corridor 3 2 10))) (corridor 3 2 10)
       (initial (corridor 3 2 10) 0 0 None) =
     Some (variablenstep_loop (corridor 3 2 10) (initial (corridor 3 2 10) 0 0 None)) \<and>
   variablenstep (corridor 3 2 10) 0 0 None =
     Inr (([1, 2, 3], [IntAction 1, IntAction 1, IntAction 1, IntAction 1]), 2) \<and>
   int (length [1, 2, 3 :: int]) \<le> depth (corridor 3 2 10)"
proof -
  have d: "0 < depth (corridor 3 2 10)" by (simp add: corridor_def)
  have run: "variablenstep (corridor 3 2 10) 0 0 None =
      Inr (([1, 2, 3], [IntAction 1, IntAction 1, IntAction 1, IntAction 1]), 2)"
    by (simp add: run_simps)
  from variablenstep_terminates_within_depth[OF d, of 0 0 None] run d
  show ?thesis by simp
qed

subsection \<open>What the episode returns\<close>

text \<open>
  Claim C10. A call returns a pair \<^verbatim>\<open>(states, actions)\<close> in which \<^verbatim>\<open>actions\<close> has
  exactly one more element than \<^verbatim>\<open>states\<close>. The call does return when \<^verbatim>\<open>steps\<close> is
  not negative and the learner's arrays fit its actions (otherwise an index may leave
  its list and the call raises). In every pair returned, the first action is the
  initial one (the \<^verbatim>\<open>action\<close> argument, or the policy's choice when it is \<^verbatim>\<open>None\<close>);
  the history \<^verbatim>\<open>S\<close> starts with the initial state, which is not returned; and every
  iteration of the loop appends to both \<^verbatim>\<open>A\<close> and \<^verbatim>\<open>S\<close> or to neither.
\<close>

theorem variablenstep_one_more_action:
  "(0 \<le> steps L \<and> arrays_ok L \<longrightarrow>
      (\<exists>states actions l'. variablenstep L l state action = Inr ((states, actions), l'))) \<and>
   (\<forall>states actions l'.
      variablenstep L l state action = Inr ((states, actions), l') \<longrightarrow>
      length actions = Suc (length states) \<and>
      hd actions = (case action of None \<Rightarrow> fst (next_action L l state) | Some a \<Rightarrow> a) \<and>
      (\<exists>v. variablenstep_loop L (initial L l state action) = Inr v \<and>
           S_var v = state # states \<and> A_var v = actions)) \<and>
   (\<forall>v v'. body L v = Inr v' \<longrightarrow>
      (A_var v' = A_var v \<and> S_var v' = S_var v) \<or>
      (\<exists>a s. A_var v' = A_var v @ [a] \<and> S_var v' = S_var v @ [s]))"
proof (intro conjI allI impI)
  assume "0 \<le> steps L \<and> arrays_ok L"
  then have "\<exists>r. variablenstep L l state action = Inr r"
    by (intro variablenstep_returns) auto
  then show "\<exists>states actions l'. variablenstep L l state action = Inr ((states, actions), l')"
    by (metis surj_pair)
next
  fix v v' :: "('a, 'b) locals"
  assume "body L v = Inr v'"
  then show "(A_var v' = A_var v \<and> S_var v' = S_var v) \<or>
      (\<exists>a s. A_var v' = A_var v @ [a] \<and> S_var v' = S_var v @ [s])"
    by (rule body_lockstep)
next
  fix states actions l'
  assume ret: "variablenstep L l state action = Inr ((states, actions), l')"
  let ?a0 = "case action of None \<Rightarrow> fst (next_action L l state) | Some a \<Rightarrow> a"
  from ret obtain v where v: "variablenstep_loop L (initial L l state action) = Inr v"
    and st: "states = drop 1 (S_var v)" and ac: "actions = A_var v"
    by (auto simp: variablenstep_def split: sum.splits)
  have init: "S_var (initial L l state action) = [state]"
    "A_var (initial L l state action) = [?a0]"
    by (auto simp: initial_def Let_def split: prod.splits option.splits)
  from loop_history[OF v] init obtain As Ss where
    hist: "A_var v = ?a0 # As" "S_var v = state # Ss" "length As = length Ss"
    by auto
  show "length actions = Suc (length states)"
    using hist st ac by simp
  show "hd actions = ?a0"
    using hist ac by simp
  show "\<exists>v. variablenstep_loop L (initial L l state action) = Inr v \<and>
      S_var v = state # states \<and> A_var v = actions"
    using v hist st ac by simp
qed

text \<open>
  In a corridor with the goal two steps away the call returns two states and three
  actions, the first of them the action passed in.
\<close>

theorem variablenstep_one_more_action_witness:
  "0 \<le> steps (corridor 5 2 2) \<and> arrays_ok (corridor 5 2 2) \<and>
   variablenstep (corridor 5 2 2) 0 0 (Some (IntAction 0)) =
     Inr (([1, 2], [IntAction 0, IntAction 1, IntAction 1]), 3) \<and>
   length [IntAction 0, IntAction 1, IntAction 1] = Suc (length [1, 2 :: int]) \<and>
   hd [IntAction 0, IntAction 1, IntAction 1] = IntAction 0"
proof -
  have ok: "0 \<le> steps (corridor 5 2 2)" "arrays_ok (corridor 5 2 2)"
    by (simp_all add: corridor_def arrays_ok_def action_index_def py_index_def)
  have run: "variablenstep (corridor 5 2 2) 0 0 (Some (IntAction 0)) =
      Inr (([1, 2], [IntAction 0, IntAction 1, IntAction 1]), 3)"
    by (simp add: run_simps)
  from variablenstep_one_more_action[of "corridor 5 2 2" 0 0 "Some (IntAction 0)"] ok run
  show ?thesis by simp
qed

section \<open>The mixed-radix codec (FlagGenerator)\<close>

text \<open>
  The learners number their states and actions with a \<^verbatim>\<open>FlagGenerator\<close>
  (\<^verbatim>\<open>stateconverter\<close>, \<^verbatim>\<open>actionconverter\<close>). Its module, \<^verbatim>\<open>qlearn/linsim/flags.py\<close>,
  is not among the sources; only its test (\<^verbatim>\<open>test_flag_generator\<close>) and its callers
  are. The definitions of this section follow the specification's description of the
  codec.
\<close>

datatype codec_error = DomainError | IndexOutOfRange

record codec =
  flags :: "int list"
  states :: int

text \<open>
  Modelled from the spec: the constructor of \<^verbatim>\<open>FlagGenerator\<close> (flags.py is missing).
  "Constructed from a sequence of positive integer cardinalities; \<^verbatim>\<open>states\<close> = product
  of all cardinalities; fails with a DomainError if any cardinality \<open>\<le> 0\<close>."
\<close>

definition FlagGenerator :: "int list \<Rightarrow> codec_error + codec" where
  "FlagGenerator bs =
     (if list_ex (\<lambda>b. b \<le> 0) bs then Inl DomainError
      else Inr \<lparr>flags = bs, states = prod_list bs\<rparr>)"

text \<open>
  Modelled from the spec: the positional weighting of \<^verbatim>\<open>FlagGenerator.encode\<close>
  (flags.py is missing). "Standard mixed-radix positional weighting, most-significant
  digit first: index = \<open>\<Sum> d\<^sub>i \<sqdot> \<Prod>\<^bsub>j>i\<^esub> b\<^sub>j\<close>."
\<close>

definition mixed_radix :: "int list \<Rightarrow> int list \<Rightarrow> int" where
  "mixed_radix bs ds = (\<Sum>k\<leftarrow>[0..<length ds]. ds ! k * prod_list (drop (Suc k) bs))"

text \<open>
  Modelled from the spec: \<^verbatim>\<open>FlagGenerator.encode\<close> (flags.py is missing). "Maps a digit
  vector to a single index" by the weighting above.
\<close>

definition encode :: "codec \<Rightarrow> int list \<Rightarrow> int" where
  "encode c ds = mixed_radix (flags c) ds"

text \<open>
  Modelled from the spec: the digits of \<^verbatim>\<open>FlagGenerator.decode\<close> (flags.py is missing).
  The specification only says that \<^verbatim>\<open>decode\<close> is the exact inverse of \<^verbatim>\<open>encode\<close>; the
  digit of each position is the quotient by the product of the bases after it, and
  the remainder goes on to the next position. The lemmas \<open>mixed_radix_digits\<close> and
  \<open>digits_mixed_radix\<close> below show that this is the inverse, in both directions.
\<close>

fun digits :: "int list \<Rightarrow> int \<Rightarrow> int list" where
  "digits [] i = []"
| "digits (b # bs) i = (i div prod_list bs) # digits bs (i mod prod_list bs)"

text \<open>
  Modelled from the spec: \<^verbatim>\<open>FlagGenerator.decode\<close> (flags.py is missing). "Its exact
  inverse; fails if \<^verbatim>\<open>index\<close> is outside \<open>[0, states)\<close>."
\<close>

definition decode :: "codec \<Rightarrow> int \<Rightarrow> codec_error + int list" where
  "decode c i =
     (if 0 \<le> i \<and> i < states c then Inr (digits (flags c) i) else Inl IndexOutOfRange)"

lemma mixed_radix_Nil: "mixed_radix bs [] = 0"
  by (simp add: mixed_radix_def)

lemma mixed_radix_Cons:
  "mixed_radix (b # bs) (d # ds) = d * prod_list bs + mixed_radix bs ds"
  by (simp add: mixed_radix_def map_upt_Suc del: upt_Suc)

lemma prod_list_pos: "\<forall>b\<in>set bs. (0::int) < b \<Longrightarrow> 0 < prod_list bs"
  by (induction bs) auto

lemma length_digits: "length (digits bs i) = length bs"
  by (induction bs arbitrary: i) auto

lemma div_bound:
  fixes i b P :: int
  assumes "0 \<le> i" "i < b * P" "0 < P"
  shows "0 \<le> i div P \<and> i div P < b"
proof
  show "0 \<le> i div P" using assms(1,3) by (simp add: pos_imp_zdiv_nonneg_iff)
  show "i div P < b"
  proof (rule ccontr)
    assume "\<not> i div P < b"
    then have "b * P \<le> i div P * P" using assms(3) by (simp add: mult_right_mono)
    moreover have "i div P * P + i mod P = i" by simp
    moreover have "0 \<le> i mod P" using assms(3) by simp
    ultimately show False using assms(2) by linarith
  qed
qed

lemma mixed_radix_digits:
  "\<forall>b\<in>set bs. 0 < b \<Longrightarrow> 0 \<le> i \<Longrightarrow> i < prod_list bs \<Longrightarrow> mixed_radix bs (digits bs i) = i"
proof (induction bs arbitrary: i)
  case Nil
  then show ?case by (simp add: mixed_radix_Nil)
next
  case (Cons b bs)
  have P: "0 < prod_list bs" using Cons.prems(1) by (simp add: prod_list_pos)
  have "mixed_radix bs (digits bs (i mod prod_list bs)) = i mod prod_list bs"
    using Cons.prems(1) P by (intro Cons.IH) auto
  then show ?case by (simp add: mixed_radix_Cons)
qed

lemma digits_in_range:
  "\<forall>b\<in>set bs. 0 < b \<Longrightarrow> 0 \<le> i \<Longrightarrow> i < prod_list bs \<Longrightarrow> k < length bs \<Longrightarrow>
     0 \<le> digits bs i ! k \<and> digits bs i ! k < bs ! k"
proof (induction bs arbitrary: i k)
  case Nil
  then show ?case by simp
next
  case (Cons b bs)
  have P: "0 < prod_list bs" using Cons.prems(1) by (simp add: prod_list_pos)
  show ?case
  proof (cases k)
    case 0
    with div_bound[of i b "prod_list bs"] Cons.prems P show ?thesis by simp
  next
    case (Suc m)
    have "0 \<le> digits bs (i mod prod_list bs) ! m \<and> digits bs (i mod prod_list bs) ! m < bs ! m"
      using Cons.prems P Suc by (intro Cons.IH) auto
    with Suc show ?thesis by simp
  qed
qed

text \<open>The other direction: the digits of the index of a digit vector are that vector.\<close>

lemma digits_mixed_radix:
  "length ds = length bs \<Longrightarrow> \<forall>k<length bs. 0 \<le> ds ! k \<and> ds ! k < bs ! k \<Longrightarrow>
     0 \<le> mixed_radix bs ds \<and> mixed_radix bs ds < prod_list bs \<and>
     digits bs (mixed_radix bs ds) = ds"
proof (induction bs arbitrary: ds)
  case Nil
  then show ?case by (simp add: mixed_radix_Nil)
next
  case (Cons b bs)
  then obtain d ds' where ds: "ds = d # ds'" and len: "length ds' = length bs"
    by (cases ds) auto
  have d: "0 \<le> d" "d < b" using Cons.prems(2) ds by auto
  have rest: "\<forall>k<length bs. 0 \<le> ds' ! k \<and> ds' ! k < bs ! k"
    using Cons.prems(2) ds by auto
  let ?P = "prod_list bs" and ?r = "mixed_radix bs ds'"
  from Cons.IH[OF len rest] have r: "0 \<le> ?r" "?r < ?P" "digits bs ?r = ds'" by auto
  have P: "0 < ?P" using r by linarith
  have "d * ?P + ?P \<le> b * ?P"
  proof -
    have "(d + 1) * ?P \<le> b * ?P" using d P by (intro mult_right_mono) auto
    then show ?thesis by (simp add: algebra_simps)
  qed
  then have up: "d * ?P + ?r < b * ?P" using r by linarith
  have lo: "0 \<le> d * ?P + ?r" using d r P by simp
  have dm: "(d * ?P + ?r) div ?P = d" "(d * ?P + ?r) mod ?P = ?r"
    using d r by (simp_all add: div_pos_pos_trivial)
  show ?case using lo up dm r(3) by (simp add: ds mixed_radix_Cons)
qed

lemmas codec_simps =
  FlagGenerator_def decode_def encode_def mixed_radix_Cons mixed_radix_Nil

subsection \<open>Decoding then encoding\<close>

text \<open>
  Claim C2. For every vector \<open>bs\<close> of positive cardinalities and every index \<open>i\<close> in
  \<open>[0, \<Prod> bs)\<close>, the codec of \<open>bs\<close> exists, \<^verbatim>\<open>decode(i)\<close> succeeds with a digit vector
  (one digit per cardinality, each within its base), and \<^verbatim>\<open>encode\<close> of that vector,
  the sum of each digit times the product of the bases after its position, is \<open>i\<close>.
\<close>

theorem encode_decode_roundtrip:
  assumes "\<forall>b\<in>set bs. 0 < b" and "0 \<le> i" and "i < prod_list bs"
  shows "\<exists>c ds. FlagGenerator bs = Inr c \<and> decode c i = Inr ds \<and>
           length ds = length bs \<and> (\<forall>k<length bs. 0 \<le> ds ! k \<and> ds ! k < bs ! k) \<and>
           encode c ds = i \<and>
           encode c ds = (\<Sum>k\<leftarrow>[0..<length ds]. ds ! k * prod_list (drop (Suc k) bs))"
proof -
  let ?c = "\<lparr>flags = bs, states = prod_list bs\<rparr>"
  have "\<not> list_ex (\<lambda>b. b \<le> 0) bs"
    using assms(1) by (auto simp: list_ex_iff)
  then have c: "FlagGenerator bs = Inr ?c"
    by (simp add: FlagGenerator_def)
  have dec: "decode ?c i = Inr (digits bs i)"
    using assms(2,3) by (simp add: decode_def)
  have enc: "encode ?c (digits bs i) = i"
    using assms by (simp add: encode_def mixed_radix_digits)
  have formula: "encode ?c (digits bs i) =
      (\<Sum>k\<leftarrow>[0..<length (digits bs i)]. digits bs i ! k * prod_list (drop (Suc k) bs))"
    by (simp add: encode_def mixed_radix_def)
  have rng: "\<forall>k<length bs. 0 \<le> digits bs i ! k \<and> digits bs i ! k < bs ! k"
    using assms by (simp add: digits_in_range)
  show ?thesis
    using c dec enc formula rng length_digits[of bs i] by blast
qed

text \<open>
  The case of the repository's test: with the cardinalities 4, 3, 2 the index 12
  decodes to \<open>[2, 0, 0]\<close>, which encodes to 12.
\<close>

theorem encode_decode_roundtrip_witness:
  "FlagGenerator [4, 3, 2] = Inr \<lparr>flags = [4, 3, 2], states = 24\<rparr> \<and>
   decode \<lparr>flags = [4, 3, 2], states = 24\<rparr> 12 = Inr [2, 0, 0] \<and>
   encode \<lparr>flags = [4, 3, 2], states = 24\<rparr> [2, 0, 0] = 12"
proof -
  have "\<forall>b\<in>set [4, 3, 2 :: int]. 0 < b" "(0::int) \<le> 12" "(12::int) < prod_list [4, 3, 2]"
    by simp_all
  from encode_decode_roundtrip[OF this] show ?thesis
    by (simp add: codec_simps)
qed

subsection \<open>The cardinalities 4, 3, 2, 14\<close>

text \<open>
  Claim C7, as stated: for the codec of \<open>[4, 3, 2, 14]\<close>, \<^verbatim>\<open>states\<close> is 336 and
  \<^verbatim>\<open>decode(12)\<close> is \<open>[2, 0, 0, 0]\<close>. The first half holds, the second does not: with the
  most significant digit first, \<open>[2, 0, 0, 0]\<close> is the vector of the index
  \<open>2 \<sqdot> (3 \<sqdot> 2 \<sqdot> 14) = 168\<close>, and 12 is below the last base, so it is the last digit.
\<close>

theorem decode_12_counterexample:
  "\<not> (\<exists>c. FlagGenerator [4, 3, 2, 14] = Inr c \<and> states c = 336 \<and>
          decode c 12 = Inr [2, 0, 0, 0])"
  by (simp add: codec_simps)

text \<open>
  Claim C7, amended: for the codec of \<open>[4, 3, 2, 14]\<close>, \<^verbatim>\<open>states\<close> is 336 and
  \<^verbatim>\<open>decode(12)\<close> is \<open>[0, 0, 0, 12]\<close>; the vector \<open>[2, 0, 0, 0]\<close> encodes to 168. The
  digits \<open>[2, 0, 0]\<close> are \<^verbatim>\<open>decode(12)\<close> for the cardinalities \<open>[4, 3, 2]\<close> (24 states),
  as in the repository's test.
\<close>

theorem decode_12_amended:
  "FlagGenerator [4, 3, 2, 14] = Inr \<lparr>flags = [4, 3, 2, 14], states = 336\<rparr> \<and>
   decode \<lparr>flags = [4, 3, 2, 14], states = 336\<rparr> 12 = Inr [0, 0, 0, 12] \<and>
   encode \<lparr>flags = [4, 3, 2, 14], states = 336\<rparr> [0, 0, 0, 12] = 12 \<and>
   encode \<lparr>flags = [4, 3, 2, 14], states = 336\<rparr> [2, 0, 0, 0] = 168 \<and>
   FlagGenerator [4, 3, 2] = Inr \<lparr>flags = [4, 3, 2], states = 24\<rparr> \<and>
   decode \<lparr>flags = [4, 3, 2], states = 24\<rparr> 12 = Inr [2, 0, 0]"
proof (intro conjI)
  show "FlagGenerator [4, 3, 2, 14] = Inr \<lparr>flags = [4, 3, 2, 14], states = 336\<rparr>"
    by (simp add: FlagGenerator_def)
  show "decode \<lparr>flags = [4, 3, 2, 14], states = 336\<rparr> 12 = Inr [0, 0, 0, 12]"
    by (simp add: decode_def)
  show "encode \<lparr>flags = [4, 3, 2, 14], states = 336\<rparr> [0, 0, 0, 12] = 12"
    by (simp add: encode_def mixed_radix_Cons mixed_radix_Nil)
  show "encode \<lparr>flags = [4, 3, 2, 14], states = 336\<rparr> [2, 0, 0, 0] = 168"
    by (simp add: encode_def mixed_radix_Cons mixed_radix_Nil)
  show "FlagGenerator [4, 3, 2] = Inr \<lparr>flags = [4, 3, 2], states = 24\<rparr>"
    by (simp add: FlagGenerator_def)
  show "decode \<lparr>flags = [4, 3, 2], states = 24\<rparr> 12 = Inr [2, 0, 0]"
    by (simp add: decode_def)
qed

end
